theory Spec2Isabelle
  imports Main "HOL-Library.Word"
begin

unbundle bit_operations_syntax

section \<open>Bytes and blocks\<close>

type_synonym byte = "8 word"

text \<open>
  \<open>blocks n xs\<close> cuts \<open>xs\<close> into consecutive slices of \<open>n\<close> elements, the last one
  possibly shorter. An empty list has no block.
\<close>

function blocks :: "nat \<Rightarrow> 'a list \<Rightarrow> 'a list list" where
  "blocks n xs = (if n = 0 \<or> xs = [] then [] else take n xs # blocks n (drop n xs))"
  by pat_completeness auto
termination
  by (relation "measure (\<lambda>(n, xs). length xs)") auto

declare blocks.simps [simp del]

section \<open>SHA-256 (\<^verbatim>\<open>crypto/sha256\<close>)\<close>

text \<open>
  \<^verbatim>\<open>ContentHash\<close> calls \<^verbatim>\<open>sha256.Sum256\<close> on every block and feeds the block digests
  to a \<^verbatim>\<open>sha256.New()\<close> hash. Both compute FIPS 180-4 SHA-256 of the bytes they were
  given, which is what \<open>Sum256\<close> below computes on a byte list. A \<^verbatim>\<open>uint32\<close> is an
  integer from 0 to \<open>2^32 - 1\<close>, and every sum is cut back to 32 bits by \<open>u32\<close>. The
  bit length that ends the padding is a 64-bit value, as in the Go implementation. The
  round constants \<open>K256\<close> are written in decimal (the first is \<^verbatim>\<open>0x428a2f98\<close>).
\<close>

definition u32 :: "int \<Rightarrow> int" where
  "u32 x = take_bit 32 x"

definition rotr :: "nat \<Rightarrow> int \<Rightarrow> int" where
  "rotr n x = drop_bit n x OR u32 (push_bit (32 - n) x)"

definition Ch :: "int \<Rightarrow> int \<Rightarrow> int \<Rightarrow> int" where
  "Ch x y z = (x AND y) XOR ((x XOR 4294967295) AND z)"

definition Maj :: "int \<Rightarrow> int \<Rightarrow> int \<Rightarrow> int" where
  "Maj x y z = (x AND y) XOR (x AND z) XOR (y AND z)"

definition bsig0 :: "int \<Rightarrow> int" where
  "bsig0 x = rotr 2 x XOR rotr 13 x XOR rotr 22 x"

definition bsig1 :: "int \<Rightarrow> int" where
  "bsig1 x = rotr 6 x XOR rotr 11 x XOR rotr 25 x"

definition ssig0 :: "int \<Rightarrow> int" where
  "ssig0 x = rotr 7 x XOR rotr 18 x XOR drop_bit 3 x"

definition ssig1 :: "int \<Rightarrow> int" where
  "ssig1 x = rotr 17 x XOR rotr 19 x XOR drop_bit 10 x"

definition K256 :: "int list" where
  "K256 = [
    1116352408, 1899447441, 3049323471, 3921009573, 961987163, 1508970993,
    2453635748, 2870763221, 3624381080, 310598401, 607225278, 1426881987,
    1925078388, 2162078206, 2614888103, 3248222580, 3835390401, 4022224774,
    264347078, 604807628, 770255983, 1249150122, 1555081692, 1996064986,
    2554220882, 2821834349, 2952996808, 3210313671, 3336571891, 3584528711,
    113926993, 338241895, 666307205, 773529912, 1294757372, 1396182291,
    1695183700, 1986661051, 2177026350, 2456956037, 2730485921, 2820302411,
    3259730800, 3345764771, 3516065817, 3600352804, 4094571909, 275423344,
    430227734, 506948616, 659060556, 883997877, 958139571, 1322822218,
    1537002063, 1747873779, 1955562222, 2024104815, 2227730452, 2361852424,
    2428436474, 2756734187, 3204031479, 3329325298]"

type_synonym digest_state = "int \<times> int \<times> int \<times> int \<times> int \<times> int \<times> int \<times> int"

definition init256 :: digest_state where
  "init256 = (0x6a09e667, 0xbb67ae85, 0x3c6ef372, 0xa54ff53a,
              0x510e527f, 0x9b05688c, 0x1f83d9ab, 0x5be0cd19)"

text \<open>The message schedule is kept newest word first: every step reads the words 2, 7, 15
  and 16 places back and puts the new word in front.\<close>

fun schedule :: "nat \<Rightarrow> int list \<Rightarrow> int list" where
  "schedule 0 ws = ws"
| "schedule (Suc k) ws =
     schedule k (u32 (ssig1 (ws ! 1) + ws ! 6 + ssig0 (ws ! 14) + ws ! 15) # ws)"

definition round256 :: "digest_state \<Rightarrow> int \<times> int \<Rightarrow> digest_state" where
  "round256 st kw = (case st of (a, b, c, d, e, f, g, h) \<Rightarrow>
     (let t1 = u32 (h + bsig1 e + Ch e f g + fst kw + snd kw);
          t2 = u32 (bsig0 a + Maj a b c)
      in (u32 (t1 + t2), a, b, c, u32 (d + t1), e, f, g)))"

definition be32 :: "byte list \<Rightarrow> int" where
  "be32 bs = foldl (\<lambda>w b. push_bit 8 w OR uint b) 0 bs"

definition block256 :: "digest_state \<Rightarrow> byte list \<Rightarrow> digest_state" where
  "block256 st blk =
     (let w = rev (schedule 48 (rev (map be32 (blocks 4 blk))))
      in case (st, foldl round256 st (zip K256 w)) of
           ((a, b, c, d, e, f, g, h), (a', b', c', d', e', f', g', h')) \<Rightarrow>
             (u32 (a + a'), u32 (b + b'), u32 (c + c'), u32 (d + d'),
              u32 (e + e'), u32 (f + f'), u32 (g + g'), u32 (h + h')))"

definition bytes32 :: "int \<Rightarrow> byte list" where
  "bytes32 w =
     [word_of_int (drop_bit 24 w), word_of_int (drop_bit 16 w), word_of_int (drop_bit 8 w),
      word_of_int w]"

definition bytes64 :: "int \<Rightarrow> byte list" where
  "bytes64 w = bytes32 (drop_bit 32 w) @ bytes32 w"

definition pad256 :: "byte list \<Rightarrow> byte list" where
  "pad256 m = m @ [0x80] @ replicate ((119 - length m mod 64) mod 64) 0
                @ bytes64 (take_bit 64 (8 * int (length m)))"

definition Sum256 :: "byte list \<Rightarrow> byte list" where
  "Sum256 m = (case foldl block256 init256 (blocks 64 (pad256 m)) of
     (a, b, c, d, e, f, g, h) \<Rightarrow>
       bytes32 a @ bytes32 b @ bytes32 c @ bytes32 d @ bytes32 e @ bytes32 f @ bytes32 g @ bytes32 h)"

section \<open>Hexadecimal output (\<^verbatim>\<open>fmt.Sprintf\<close> with \<^verbatim>\<open>%x\<close>)\<close>

text \<open>The verb \<^verbatim>\<open>%x\<close> on a byte slice prints two lower-case hexadecimal digits per byte.\<close>

definition hexdigit :: "nat \<Rightarrow> char" where
  "hexdigit d = ''0123456789abcdef'' ! d"

definition hex :: "byte list \<Rightarrow> string" where
  "hex bs = concat (map (\<lambda>b. [hexdigit (unat b div 16), hexdigit (unat b mod 16)]) bs)"

section \<open>Errors and readers\<close>

text \<open>
  A Go \<^verbatim>\<open>error\<close> is \<^verbatim>\<open>nil\<close> (\<open>None\<close>) or a value. \<open>EOF\<close> is the sentinel \<^verbatim>\<open>io.EOF\<close>,
  \<open>PathError\<close> is \<^verbatim>\<open>*os.PathError\<close> with its operation, path and cause, and
  \<open>ErrorString\<close> stands for any other error value.
\<close>

datatype error = EOF | PathError string string string | ErrorString string

text \<open>
  An \<^verbatim>\<open>io.Reader\<close> is a state and its \<^verbatim>\<open>Read\<close> method. \<open>rd n s\<close> is the call
  \<^verbatim>\<open>Read(p)\<close> with \<^verbatim>\<open>len(p) = n\<close> in state \<open>s\<close>: it gives the bytes \<^verbatim>\<open>p[:n']\<close> the
  reader stored (so the count \<^verbatim>\<open>n'\<close> is the length of that list), the error, and the
  reader's next state. The interface asks for \<^verbatim>\<open>0 <= n' <= len(p)\<close>; a \<^verbatim>\<open>Read\<close> that
  reports more than the buffer holds makes \<^verbatim>\<open>buf[:n]\<close> panic and has no counterpart
  here.
\<close>

type_synonym 's reader = "nat \<Rightarrow> 's \<Rightarrow> (byte list \<times> error option) \<times> 's"

section \<open>\<^verbatim>\<open>ContentHash\<close> and \<^verbatim>\<open>FileContentHash\<close> (files.go)\<close>

definition hashBlockSize :: nat where
  "hashBlockSize = 4 * 1024 * 1024"

text \<open>
  The \<^verbatim>\<open>for n == hashBlockSize && err == nil\<close> loop. Its state is the reader, the
  count and error of the last read, and the bytes written to \<^verbatim>\<open>resultHash\<close> so far.
  \<open>Inl e\<close> is the early \<^verbatim>\<open>return "", err\<close>; \<open>Inr written\<close> is the normal exit of the
  loop. A reader that keeps delivering full blocks never lets the loop end: the value is
  then \<open>None\<close>.
\<close>

partial_function (option) hash_loop ::
  "'s reader \<Rightarrow> 's \<Rightarrow> nat \<Rightarrow> error option \<Rightarrow> byte list \<Rightarrow> (error + byte list) option" where
  "hash_loop rd s n err written =
     (if n = hashBlockSize \<and> err = None then
        (case rd hashBlockSize s of
           ((buf, err'), s') \<Rightarrow>
             (case err' of
                Some e \<Rightarrow>
                  if e \<noteq> EOF then Some (Inl e)
                  else hash_loop rd s' (length buf) err'
                         (if 0 < length buf then written @ Sum256 buf else written)
              | None \<Rightarrow>
                  hash_loop rd s' (length buf) err'
                    (if 0 < length buf then written @ Sum256 buf else written)))
      else Some (Inr written))"

text \<open>
  Everything \<^verbatim>\<open>ContentHash\<close> does before its last line: the first read, then the loop.
  The result is the early return or the bytes that \<^verbatim>\<open>resultHash\<close> has received.
\<close>

definition block_digests :: "'s reader \<Rightarrow> 's \<Rightarrow> (error + byte list) option" where
  "block_digests rd s =
     (case rd hashBlockSize s of
        ((buf, err), s') \<Rightarrow>
          (case err of
             Some e \<Rightarrow>
               if e \<noteq> EOF then Some (Inl e)
               else hash_loop rd s' (length buf) err (if 0 < length buf then Sum256 buf else [])
           | None \<Rightarrow>
               hash_loop rd s' (length buf) err (if 0 < length buf then Sum256 buf else [])))"

text \<open>
  \<^verbatim>\<open>ContentHash\<close> returns the Go pair \<^verbatim>\<open>(string, error)\<close>; \<open>None\<close> is a call that does
  not return.
\<close>

definition ContentHash :: "'s reader \<Rightarrow> 's \<Rightarrow> (string \<times> error option) option" where
  "ContentHash rd s =
     (case block_digests rd s of
        None \<Rightarrow> None
      | Some (Inl e) \<Rightarrow> Some ('''', Some e)
      | Some (Inr written) \<Rightarrow> Some (hex (Sum256 written), None))"

text \<open>
  \<^verbatim>\<open>FileContentHash\<close> opens the file and hands it to \<^verbatim>\<open>ContentHash\<close>. The operating
  system is a parameter: \<open>os_Open\<close> is \<^verbatim>\<open>os.Open\<close>, giving an error or an open file, and
  \<open>File_Read\<close> is the \<^verbatim>\<open>Read\<close> method of \<^verbatim>\<open>*os.File\<close>. The deferred \<^verbatim>\<open>f.Close()\<close>
  runs on the way out and its result is dropped; it does not change what is returned.
\<close>

definition FileContentHash ::
  "(string \<Rightarrow> error + 's) \<Rightarrow> 's reader \<Rightarrow> string \<Rightarrow> (string \<times> error option) option" where
  "FileContentHash os_Open File_Read filename =
     (case os_Open filename of
        Inl err \<Rightarrow> Some ('''', Some err)
      | Inr f \<Rightarrow> ContentHash File_Read f)"

section \<open>Readers of the standard library\<close>

text \<open>
  \<^verbatim>\<open>bytes.Reader\<close> over the bytes still unread: \<^verbatim>\<open>Read\<close> gives \<^verbatim>\<open>0, io.EOF\<close> when
  nothing is left and otherwise copies as much as the buffer holds. This is the reader
  meant when a statement speaks of the content hash of a byte string.
\<close>

definition bytes_Read :: "byte list reader" where
  "bytes_Read n s = (if s = [] then (([], Some EOF), s) else ((take n s, None), drop n s))"

text \<open>
  \<^verbatim>\<open>iotest.OneByteReader\<close>: every \<^verbatim>\<open>Read\<close> with a non-empty buffer asks the wrapped
  reader for a single byte.
\<close>

definition OneByteReader :: "'s reader \<Rightarrow> 's reader" where
  "OneByteReader rd n s = (if n = 0 then (([], None), s) else rd 1 s)"

text \<open>
  \<^verbatim>\<open>iotest.TimeoutReader\<close>: the second \<^verbatim>\<open>Read\<close> returns no data and \<^verbatim>\<open>ErrTimeout\<close>;
  every other call goes to the wrapped reader. The state counts the calls.
\<close>

definition ErrTimeout :: error where
  "ErrTimeout = ErrorString ''timeout''"

definition TimeoutReader :: "'s reader \<Rightarrow> (nat \<times> 's) reader" where
  "TimeoutReader rd n cs =
     (case cs of
        (count, s) \<Rightarrow>
          if count + 1 = 2 then (([], Some ErrTimeout), (count + 1, s))
          else (case rd n s of (r, s') \<Rightarrow> (r, (count + 1, s'))))"

text \<open>
  A file handle as \<^verbatim>\<open>ContentHash\<close> sees it. \<^verbatim>\<open>(*os.File).Read\<close> is one \<^verbatim>\<open>read\<close> system
  call: it reads up to \<^verbatim>\<open>len(b)\<close> bytes, and a call that reads nothing into a non-empty
  buffer is reported as \<^verbatim>\<open>io.EOF\<close>. A regular file is given by its unread bytes and by
  the most bytes that one system call delivers: a file on a local disk delivers as many
  as are asked for, a file of \<^verbatim>\<open>/proc\<close> or of a network file system may deliver fewer.
  A directory is opened by \<^verbatim>\<open>os.Open\<close> and refused by \<^verbatim>\<open>Read\<close>. \<open>fs_Open\<close> is a file
  system with two regular files of the same two bytes, one read in full and one read a
  byte at a time, and one directory.
\<close>

datatype os_File = RegularFile "byte list" nat | Directory string

definition File_Read :: "os_File reader" where
  "File_Read n f =
     (case f of
        RegularFile bs most \<Rightarrow>
          if n = 0 then (([], None), f)
          else if take (min n most) bs = [] then (([], Some EOF), f)
          else ((take (min n most) bs, None), RegularFile (drop (min n most) bs) most)
      | Directory p \<Rightarrow> (([], Some (PathError ''read'' p ''is a directory'')), f))"

definition fs_Open :: "string \<Rightarrow> error + os_File" where
  "fs_Open p =
     (if p = ''/data/ab.bin'' then Inr (RegularFile [0x61, 0x62] hashBlockSize)
      else if p = ''/proc/ab'' then Inr (RegularFile [0x61, 0x62] 1)
      else if p = ''/data'' then Inr (Directory ''/data'')
      else Inl (PathError ''open'' p ''no such file or directory''))"

text \<open>
  \<open>reads_like_bytes rd h\<close>: the reader \<open>rd\<close>, in the state \<open>h bs\<close> where the bytes
  \<open>bs\<close> are still unread, fills the buffer of \<^verbatim>\<open>ContentHash\<close> as far as they go and
  reports end-of-stream once none is left.
\<close>

definition reads_like_bytes :: "'s reader \<Rightarrow> (byte list \<Rightarrow> 's) \<Rightarrow> bool" where
  "reads_like_bytes rd h =
     (\<forall>bs. rd hashBlockSize (h bs) =
        (if bs = [] then (([], Some EOF), h bs)
         else ((take hashBlockSize bs, None), h (drop hashBlockSize bs))))"

text \<open>
  What package \<^verbatim>\<open>os\<close> documents about its errors: \<^verbatim>\<open>os.Open\<close> fails with a
  \<^verbatim>\<open>*PathError\<close> of operation \<^verbatim>\<open>open\<close> on the path it was given, and a file's \<^verbatim>\<open>Read\<close>
  fails with \<^verbatim>\<open>io.EOF\<close> or a \<^verbatim>\<open>*PathError\<close> of operation \<^verbatim>\<open>read\<close>.
\<close>

definition open_fails_with_open :: "(string \<Rightarrow> error + 's) \<Rightarrow> bool" where
  "open_fails_with_open os_Open =
     (\<forall>p e. os_Open p = Inl e \<longrightarrow> (\<exists>msg. e = PathError ''open'' p msg))"

definition read_fails_with_read :: "'s reader \<Rightarrow> bool" where
  "read_fails_with_read rd =
     (\<forall>n s buf e s'. rd n s = ((buf, Some e), s') \<longrightarrow>
        e = EOF \<or> (\<exists>p msg. e = PathError ''read'' p msg))"

section \<open>The reads that \<^verbatim>\<open>ContentHash\<close> performs\<close>

text \<open>
  \<^verbatim>\<open>ContentHash\<close> always reads once. It reads again exactly when the read before filled
  the whole buffer and gave no error. \<open>reaches rd s k\<close> says that the first \<open>k\<close> reads
  from state \<open>s\<close> were all of that kind, so that read number \<open>k\<close> (counted from 0) is
  performed; \<open>nth_read rd s k\<close> is what read number \<open>k\<close> returns and
  \<open>read_blocks rd s k\<close> are the buffers of the first \<open>k\<close> reads.
\<close>

fun reaches :: "'s reader \<Rightarrow> 's \<Rightarrow> nat \<Rightarrow> bool" where
  "reaches rd s 0 = True"
| "reaches rd s (Suc k) =
     (case rd hashBlockSize s of
        ((buf, err), s') \<Rightarrow> length buf = hashBlockSize \<and> err = None \<and> reaches rd s' k)"

fun nth_read :: "'s reader \<Rightarrow> 's \<Rightarrow> nat \<Rightarrow> byte list \<times> error option" where
  "nth_read rd s 0 = fst (rd hashBlockSize s)"
| "nth_read rd s (Suc k) = nth_read rd (snd (rd hashBlockSize s)) k"

fun read_blocks :: "'s reader \<Rightarrow> 's \<Rightarrow> nat \<Rightarrow> byte list list" where
  "read_blocks rd s 0 = []"
| "read_blocks rd s (Suc k) =
     fst (fst (rd hashBlockSize s)) # read_blocks rd (snd (rd hashBlockSize s)) k"

section \<open>Upload write modes (files.go)\<close>

type_synonym WriteMode = string

definition WriteModeAdd :: WriteMode where
  "WriteModeAdd = ''add''"

definition WriteModeOverwrite :: WriteMode where
  "WriteModeOverwrite = ''overwrite''"

definition WriteModeUpdate :: WriteMode where
  "WriteModeUpdate = ''update''"

text \<open>The struct \<^verbatim>\<open>writeModeUpdate\<close>; its fields \<^verbatim>\<open>Tag\<close> and \<^verbatim>\<open>Rev\<close> carry a prefix here,
  since \<^verbatim>\<open>Metadata\<close> has fields of the same names.\<close>

record writeModeUpdate =
  update_Tag :: string
  update_Rev :: string

definition newWriteModeUpdate :: "string \<Rightarrow> writeModeUpdate" where
  "newWriteModeUpdate revision = \<lparr>update_Tag = ''update'', update_Rev = revision\<rparr>"

text \<open>
  The field \<^verbatim>\<open>Mode\<close> is an \<^verbatim>\<open>interface{}\<close>: \<^verbatim>\<open>nil\<close>, a \<^verbatim>\<open>WriteMode\<close>, a pointer to a
  \<^verbatim>\<open>writeModeUpdate\<close>, or a value of any other dynamic type (a plain string, an
  integer, a boolean). The pointer is never nil where \<^verbatim>\<open>SetMode\<close> stored it, and it is
  given by the struct it points to.
\<close>

datatype other_value = GoString string | GoInt int | GoBool bool

datatype mode_value =
  NilMode
  | WriteModeValue WriteMode
  | WriteModeUpdatePtr writeModeUpdate
  | OtherValue other_value

text \<open>\<^verbatim>\<open>UploadInput\<close> without \<^verbatim>\<open>PropertyGroups\<close> and \<^verbatim>\<open>Reader\<close>, which the mode
  accessors do not touch.\<close>

record UploadInput =
  Path :: string
  Mode :: mode_value
  AutoRename :: bool
  ClientModified :: string
  Mute :: bool
  StrictConflict :: bool

definition SetMode :: "UploadInput \<Rightarrow> WriteMode \<Rightarrow> string \<Rightarrow> UploadInput" where
  "SetMode i mode revision =
     (if mode = WriteModeUpdate then i\<lparr>Mode := WriteModeUpdatePtr (newWriteModeUpdate revision)\<rparr>
      else i\<lparr>Mode := WriteModeValue mode\<rparr>)"

definition GetMode :: "UploadInput \<Rightarrow> WriteMode \<times> string" where
  "GetMode i =
     (case Mode i of
        WriteModeUpdatePtr m \<Rightarrow> (WriteModeUpdate, update_Rev m)
      | WriteModeValue m \<Rightarrow> (m, '''')
      | _ \<Rightarrow> ('''', ''''))"

section \<open>Metadata tags (files.go)\<close>

definition MetadataTypeFile :: string where
  "MetadataTypeFile = ''file''"

definition MetadataTypeFolder :: string where
  "MetadataTypeFolder = ''folder''"

definition MetadataTypeDeleted :: string where
  "MetadataTypeDeleted = ''deleted''"

text \<open>\<^verbatim>\<open>Metadata\<close> with its string, number and boolean fields; the time stamps and the
  pointers to nested structs are read by none of the predicates below. The field
  \<^verbatim>\<open>ContentHash\<close> is \<open>ContentHashField\<close> here.\<close>

record Metadata =
  Tag :: string
  Name :: string
  PathLower :: string
  PathDisplay :: string
  Rev :: string
  Size :: "64 word"
  ID :: string
  IsDownloadable :: bool
  HasExplicitSharedMembers :: bool
  ContentHashField :: string

text \<open>
  \<^verbatim>\<open>strings.ToLower\<close>: a string of ASCII bytes only has its letters \<^verbatim>\<open>A\<close> to \<^verbatim>\<open>Z\<close> moved to
  lower case byte by byte; any other string goes through the Unicode case tables,
  which are the parameter \<open>unicode_lower\<close>.
\<close>

definition isASCII :: "char \<Rightarrow> bool" where
  "isASCII c = ((of_char c :: nat) < 128)"

definition lowerASCII :: "char \<Rightarrow> char" where
  "lowerASCII c =
     (if 65 \<le> (of_char c :: nat) \<and> (of_char c :: nat) \<le> 90 then char_of (of_char c + 32 :: nat)
      else c)"

definition ToLower :: "(string \<Rightarrow> string) \<Rightarrow> string \<Rightarrow> string" where
  "ToLower unicode_lower s =
     (if list_all isASCII s then map lowerASCII s else unicode_lower s)"

definition IsFile :: "(string \<Rightarrow> string) \<Rightarrow> Metadata \<Rightarrow> bool" where
  "IsFile unicode_lower m = (ToLower unicode_lower (Tag m) = MetadataTypeFile)"

definition IsFolder :: "(string \<Rightarrow> string) \<Rightarrow> Metadata \<Rightarrow> bool" where
  "IsFolder unicode_lower m = (ToLower unicode_lower (Tag m) = MetadataTypeFolder)"

definition IsDeleted :: "(string \<Rightarrow> string) \<Rightarrow> Metadata \<Rightarrow> bool" where
  "IsDeleted unicode_lower m = (ToLower unicode_lower (Tag m) = MetadataTypeDeleted)"

section \<open>Digests and hexadecimal strings\<close>

lemma length_bytes32: "length (bytes32 w) = 4"
  by (simp add: bytes32_def)

lemma length_Sum256: "length (Sum256 m) = 32"
  by (simp add: Sum256_def length_bytes32 split: prod.splits)

text \<open>
  Test vectors, computed by the definitions above: the digest of no bytes, and the
  digests of the one-byte string \<^verbatim>\<open>a\<close> and the two-byte string \<^verbatim>\<open>ab\<close> together with the
  digests of these digests.
\<close>

lemma Sum256_empty_hex:
  "hex (Sum256 []) = ''e3b0c44298fc1c149afbf4c8996fb92427ae41e4649b934ca495991b7852b855''"
  by code_simp

lemma Sum256_a:
  "Sum256 [0x61] =
     [202, 151, 129, 18, 202, 27, 189, 202, 250, 194, 49, 179, 154, 35, 220, 77, 167,
      134, 239, 248, 20, 124, 78, 114, 185, 128, 119, 133, 175, 238, 72, 187]"
  by code_simp

lemma Sum256_ab:
  "Sum256 [0x61, 0x62] =
     [251, 142, 32, 252, 46, 76, 63, 36, 140, 96, 195, 155, 214, 82, 243, 193, 52,
      114, 152, 187, 151, 123, 139, 77, 89, 3, 184, 80, 85, 98, 6, 3]"
  by code_simp

lemma Sum256_Sum256_a_hex:
  "hex (Sum256
     [202, 151, 129, 18, 202, 27, 189, 202, 250, 194, 49, 179, 154, 35, 220, 77, 167,
      134, 239, 248, 20, 124, 78, 114, 185, 128, 119, 133, 175, 238, 72, 187]) =
   ''bf5d3affb73efd2ec6c36ad3112dd933efed63c4e1cbffcfa88e2759c144f2d8''"
  by code_simp

lemma Sum256_Sum256_ab_hex:
  "hex (Sum256
     [251, 142, 32, 252, 46, 76, 63, 36, 140, 96, 195, 155, 214, 82, 243, 193, 52,
      114, 152, 187, 151, 123, 139, 77, 89, 3, 184, 80, 85, 98, 6, 3]) =
   ''a1ff8f1856b5e24e32e3882edd4a021f48f28a8b21854b77fdef25a97601aace''"
  by code_simp

lemma length_hex: "length (hex bs) = 2 * length bs"
  by (induction bs) (simp_all add: hex_def)

lemma hexdigit_lower: "d < 16 \<Longrightarrow> hexdigit d \<in> set ''0123456789abcdef''"
  unfolding hexdigit_def by (rule nth_mem) simp

lemma set_hex: "set (hex bs) \<subseteq> set ''0123456789abcdef''"
proof -
  have "unat b div 16 < 16" for b :: byte
    using unsigned_less [of b, where 'a = nat] by (simp add: less_mult_imp_div_less)
  then show ?thesis
    unfolding hex_def using hexdigit_lower by (induction bs) auto
qed

lemma hash_loop_exit:
  "n \<noteq> hashBlockSize \<or> err \<noteq> None \<Longrightarrow> hash_loop rd s n err w = Some (Inr w)"
  by (subst hash_loop.simps) auto

lemma hashBlockSize_pos: "0 < hashBlockSize"
  by (simp add: hashBlockSize_def)

lemma reads_like_bytes_empty:
  "reads_like_bytes rd h \<Longrightarrow> rd hashBlockSize (h []) = (([], Some EOF), h [])"
  by (simp add: reads_like_bytes_def)

lemma reads_like_bytes_take:
  "reads_like_bytes rd h \<Longrightarrow> bs \<noteq> [] \<Longrightarrow>
     rd hashBlockSize (h bs) = ((take hashBlockSize bs, None), h (drop hashBlockSize bs))"
  by (simp add: reads_like_bytes_def)

lemma hash_loop_filled_end:
  assumes "reads_like_bytes rd h"
  shows "hash_loop rd (h []) hashBlockSize None w = Some (Inr w)"
  by (subst hash_loop.simps) (simp add: reads_like_bytes_empty [OF assms] hash_loop_exit)

lemma hash_loop_filled_full:
  assumes fill: "reads_like_bytes rd h" and "hashBlockSize \<le> length bs"
  shows "hash_loop rd (h bs) hashBlockSize None w =
         hash_loop rd (h (drop hashBlockSize bs)) hashBlockSize None
           (w @ Sum256 (take hashBlockSize bs))"
proof -
  from assms hashBlockSize_pos have ne: "bs \<noteq> []" by auto
  have len: "length (take hashBlockSize bs) = hashBlockSize"
    using assms by simp
  note rd = reads_like_bytes_take [OF fill ne]
  show ?thesis
    by (subst hash_loop.simps) (simp only: rd len hashBlockSize_pos prod.case option.case if_True simp_thms)
qed

lemma hash_loop_filled_short:
  assumes fill: "reads_like_bytes rd h" and "bs \<noteq> []" "length bs < hashBlockSize"
  shows "hash_loop rd (h bs) hashBlockSize None w = Some (Inr (w @ Sum256 bs))"
proof -
  have rd: "rd hashBlockSize (h bs) = ((bs, None), h [])"
    using assms by (simp add: reads_like_bytes_take)
  from assms have "hash_loop rd (h []) (length bs) None (w @ Sum256 bs) = Some (Inr (w @ Sum256 bs))"
    by (intro hash_loop_exit) simp
  with assms show ?thesis
    by (subst hash_loop.simps) (simp add: rd)
qed

lemma hash_loop_filled:
  assumes fill: "reads_like_bytes rd h"
  shows "hash_loop rd (h bs) hashBlockSize None w =
     Some (Inr (w @ concat (map Sum256 (blocks hashBlockSize bs))))"
proof (induction hashBlockSize bs arbitrary: w rule: blocks.induct)
  case (1 bs)
  consider "bs = []" | "bs \<noteq> []" "length bs < hashBlockSize" | "hashBlockSize \<le> length bs"
    by linarith
  then show ?case
  proof cases
    case 1
    then show ?thesis
      by (simp add: hash_loop_filled_end [OF fill] blocks.simps)
  next
    case 2
    then have "blocks hashBlockSize bs = [bs]"
      by (subst blocks.simps) (simp add: blocks.simps [of _ "[]"])
    with 2 show ?thesis
      by (simp add: hash_loop_filled_short [OF fill])
  next
    case 3
    with hashBlockSize_pos have ne: "bs \<noteq> []" by auto
    have "blocks hashBlockSize bs = take hashBlockSize bs # blocks hashBlockSize (drop hashBlockSize bs)"
      using ne hashBlockSize_pos by (subst blocks.simps) simp
    moreover have "hash_loop rd (h (drop hashBlockSize bs)) hashBlockSize None (w @ Sum256 (take hashBlockSize bs))
      = Some (Inr ((w @ Sum256 (take hashBlockSize bs)) @ concat (map Sum256 (blocks hashBlockSize (drop hashBlockSize bs)))))"
      using ne hashBlockSize_pos by (intro "1.hyps") simp
    ultimately show ?thesis
      by (simp add: hash_loop_filled_full [OF fill 3])
  qed
qed

lemma block_digests_filled:
  assumes fill: "reads_like_bytes rd h"
  shows "block_digests rd (h bs) = Some (Inr (concat (map Sum256 (blocks hashBlockSize bs))))"
proof -
  consider "bs = []" | "bs \<noteq> []" "length bs < hashBlockSize" | "hashBlockSize \<le> length bs"
    by linarith
  then show ?thesis
  proof cases
    case 1
    then show ?thesis
      by (simp add: block_digests_def reads_like_bytes_empty [OF fill] hash_loop_exit blocks.simps)
  next
    case 2
    then have "blocks hashBlockSize bs = [bs]"
      by (subst blocks.simps) (simp add: blocks.simps [of _ "[]"])
    with 2 show ?thesis
      by (simp add: block_digests_def reads_like_bytes_take [OF fill] hash_loop_exit)
  next
    case 3
    with hashBlockSize_pos have ne: "bs \<noteq> []" by auto
    have b: "blocks hashBlockSize bs = take hashBlockSize bs # blocks hashBlockSize (drop hashBlockSize bs)"
      using ne hashBlockSize_pos by (subst blocks.simps) simp
    have len: "length (take hashBlockSize bs) = hashBlockSize"
      using 3 by simp
    note rd = reads_like_bytes_take [OF fill ne]
    show ?thesis
      unfolding block_digests_def rd b
      by (simp only: prod.case option.case len hashBlockSize_pos if_True hash_loop_filled [OF fill]) simp
  qed
qed

lemma bytes_Read_fills: "reads_like_bytes bytes_Read (\<lambda>bs. bs)"
  by (simp add: reads_like_bytes_def bytes_Read_def)

lemma File_Read_fills:
  "hashBlockSize \<le> most \<Longrightarrow> reads_like_bytes File_Read (\<lambda>bs. RegularFile bs most)"
  using hashBlockSize_pos by (simp add: reads_like_bytes_def File_Read_def min_absorb1)

lemma block_digests_bytes:
  "block_digests bytes_Read bs = Some (Inr (concat (map Sum256 (blocks hashBlockSize bs))))"
  using block_digests_filled [OF bytes_Read_fills] .

lemma ContentHash_bytes:
  "ContentHash bytes_Read bs =
     Some (hex (Sum256 (concat (map Sum256 (blocks hashBlockSize bs)))), None)"
  by (simp add: ContentHash_def block_digests_bytes)

lemma ContentHash_RegularFile:
  "hashBlockSize \<le> most \<Longrightarrow>
     ContentHash File_Read (RegularFile bs most) = ContentHash bytes_Read bs"
  using block_digests_filled [OF File_Read_fills, of most bs]
  by (simp add: ContentHash_def block_digests_bytes)

lemma hash_loop_abort:
  "reaches rd s k \<Longrightarrow> nth_read rd s k = (buf, Some e) \<Longrightarrow> e \<noteq> EOF \<Longrightarrow>
     hash_loop rd s hashBlockSize None w = Some (Inl e)"
proof (induction k arbitrary: s w)
  case 0
  then show ?case
    by (subst hash_loop.simps) (auto split: prod.splits option.splits)
next
  case (Suc k)
  obtain b er s' where rd: "rd hashBlockSize s = ((b, er), s')"
    by (metis surj_pair)
  with Suc.prems have full: "length b = hashBlockSize" "er = None"
    and *: "reaches rd s' k" "nth_read rd s' k = (buf, Some e)"
    by simp_all
  from Suc.IH [OF * \<open>e \<noteq> EOF\<close>] full rd show ?case
    by (subst hash_loop.simps) simp
qed

lemma block_digests_abort:
  assumes "reaches rd s k" "nth_read rd s k = (buf, Some e)" "e \<noteq> EOF"
  shows "block_digests rd s = Some (Inl e)"
proof (cases k)
  case 0
  with assms show ?thesis
    by (auto simp: block_digests_def split: prod.splits option.splits)
next
  case (Suc j)
  obtain b er s' where rd: "rd hashBlockSize s = ((b, er), s')"
    by (metis surj_pair)
  with Suc assms have full: "length b = hashBlockSize" "er = None"
    and *: "reaches rd s' j" "nth_read rd s' j = (buf, Some e)"
    by simp_all
  from hash_loop_abort [OF * \<open>e \<noteq> EOF\<close>] full rd show ?thesis
    by (simp add: block_digests_def)
qed

lemma hash_loop_Inl:
  assumes "hash_loop rd s n err w = Some (Inl e)"
  shows "n = hashBlockSize \<and> err = None \<and> e \<noteq> EOF \<and>
         (\<exists>k buf. reaches rd s k \<and> nth_read rd s k = (buf, Some e))"
proof -
  have "\<forall>e. y = Inl e \<longrightarrow> n = hashBlockSize \<and> err = None \<and> e \<noteq> EOF \<and>
           (\<exists>k buf. reaches rd s k \<and> nth_read rd s k = (buf, Some e))"
    if run: "hash_loop rd s n err w = Some y" for y
  proof (rule hash_loop.raw_induct [OF _ run], goal_cases)
    case (1 loop rd s n err w y)
    show ?case
    proof (intro allI impI)
      fix e assume y: "y = Inl e"
      obtain b er s' where rd: "rd hashBlockSize s = ((b, er), s')"
        by (metis surj_pair)
      from 1(2) y have entry: "n = hashBlockSize" "err = None"
        by (auto split: if_splits)
      show "n = hashBlockSize \<and> err = None \<and> e \<noteq> EOF \<and>
            (\<exists>k buf. reaches rd s k \<and> nth_read rd s k = (buf, Some e))"
      proof (cases "\<exists>x. er = Some x \<and> x \<noteq> EOF")
        case True
        with 1(2) y rd entry have "er = Some e" "e \<noteq> EOF"
          by (auto split: if_splits)
        with rd have "reaches rd s 0 \<and> nth_read rd s 0 = (b, Some e)"
          by simp
        with entry \<open>e \<noteq> EOF\<close> show ?thesis by blast
      next
        case False
        with 1(2) rd entry y
        have call: "loop rd s' (length b) er (if 0 < length b then w @ Sum256 b else w) = Some (Inl e)"
          by (auto split: option.splits if_splits)
        from 1(1) [OF call] have ih: "length b = hashBlockSize" "er = None" "e \<noteq> EOF"
          and "\<exists>k buf. reaches rd s' k \<and> nth_read rd s' k = (buf, Some e)"
          by simp_all
        then obtain k buf where "reaches rd s' k" "nth_read rd s' k = (buf, Some e)"
          by blast
        with ih rd have "reaches rd s (Suc k) \<and> nth_read rd s (Suc k) = (buf, Some e)"
          by simp
        with entry ih show ?thesis by blast
      qed
    qed
  qed
  with assms show ?thesis by blast
qed

lemma block_digests_Inl:
  assumes "block_digests rd s = Some (Inl e)"
  shows "e \<noteq> EOF \<and> (\<exists>k buf. reaches rd s k \<and> nth_read rd s k = (buf, Some e))"
proof -
  obtain b er s' where rd: "rd hashBlockSize s = ((b, er), s')"
    by (metis surj_pair)
  show ?thesis
  proof (cases "\<exists>x. er = Some x \<and> x \<noteq> EOF")
    case True
    with assms rd have "er = Some e" "e \<noteq> EOF"
      by (auto simp: block_digests_def)
    with rd have "reaches rd s 0 \<and> nth_read rd s 0 = (b, Some e)"
      by simp
    with \<open>e \<noteq> EOF\<close> show ?thesis by blast
  next
    case False
    with assms rd
    have "hash_loop rd s' (length b) er (if 0 < length b then Sum256 b else []) = Some (Inl e)"
      by (auto simp: block_digests_def split: option.splits if_splits)
    from hash_loop_Inl [OF this] obtain k buf where
      ih: "length b = hashBlockSize" "er = None" "e \<noteq> EOF"
      and "reaches rd s' k" "nth_read rd s' k = (buf, Some e)"
      by blast
    with rd have "reaches rd s (Suc k) \<and> nth_read rd s (Suc k) = (buf, Some e)"
      by simp
    with ih show ?thesis by blast
  qed
qed

lemma blocks_single:
  assumes "xs \<noteq> []" "length xs \<le> n"
  shows "blocks n xs = [xs]"
proof -
  from assms have "0 < n" by (cases xs) auto
  with assms show ?thesis
    by (subst blocks.simps) (simp add: blocks.simps [of _ "[]"])
qed

lemma length_read_blocks: "length (read_blocks rd s k) = k"
  by (induction k arbitrary: s) simp_all

lemma reaches_read_blocks:
  "reaches rd s k \<Longrightarrow> length (concat (read_blocks rd s k)) = k * hashBlockSize"
  by (induction k arbitrary: s) (auto split: prod.splits)

lemma length_concat_digests: "length (concat (map Sum256 bss)) = 32 * length bss"
  by (induction bss) (simp_all add: length_Sum256)

lemma hash_loop_full_blocks:
  "reaches rd s k \<Longrightarrow> nth_read rd s k = ([], Some EOF) \<Longrightarrow>
     hash_loop rd s hashBlockSize None w =
       Some (Inr (w @ concat (map Sum256 (read_blocks rd s k))))"
proof (induction k arbitrary: s w)
  case 0
  obtain s' where "rd hashBlockSize s = (([], Some EOF), s')"
    using 0 by (cases "rd hashBlockSize s") auto
  moreover have "hash_loop rd s' 0 (Some EOF) w = Some (Inr w)"
    by (rule hash_loop_exit) simp
  ultimately show ?case
    by (subst hash_loop.simps) simp
next
  case (Suc k)
  obtain b er s' where rd: "rd hashBlockSize s = ((b, er), s')"
    by (metis surj_pair)
  with Suc.prems have full: "length b = hashBlockSize" "er = None"
    and *: "reaches rd s' k" "nth_read rd s' k = ([], Some EOF)"
    by simp_all
  from Suc.IH [OF *, of "w @ Sum256 b"] full rd hashBlockSize_pos show ?case
    by (subst hash_loop.simps) simp
qed

lemma block_digests_full_blocks:
  assumes "reaches rd s k" "nth_read rd s k = ([], Some EOF)"
  shows "block_digests rd s = Some (Inr (concat (map Sum256 (read_blocks rd s k))))"
proof (cases k)
  case 0
  obtain s' where "rd hashBlockSize s = (([], Some EOF), s')"
    using 0 assms by (cases "rd hashBlockSize s") auto
  moreover have "hash_loop rd s' 0 (Some EOF) [] = Some (Inr [])"
    by (rule hash_loop_exit) simp
  ultimately show ?thesis
    using 0 by (simp add: block_digests_def)
next
  case (Suc j)
  obtain b er s' where rd: "rd hashBlockSize s = ((b, er), s')"
    by (metis surj_pair)
  with Suc assms have full: "length b = hashBlockSize" "er = None"
    and *: "reaches rd s' j" "nth_read rd s' j = ([], Some EOF)"
    by simp_all
  from hash_loop_full_blocks [OF *, of "Sum256 b"] full rd hashBlockSize_pos Suc show ?thesis
    by (simp add: block_digests_def)
qed

lemma filled_full_blocks:
  assumes fill: "reads_like_bytes rd h"
  shows "length bs = k * hashBlockSize \<Longrightarrow>
         reaches rd (h bs) k \<and> nth_read rd (h bs) k = ([], Some EOF) \<and>
         concat (read_blocks rd (h bs) k) = bs"
proof (induction k arbitrary: bs)
  case 0
  then show ?case
    by (simp add: reads_like_bytes_empty [OF fill])
next
  case (Suc k)
  with hashBlockSize_pos have ne: "bs \<noteq> []" by auto
  note rd = reads_like_bytes_take [OF fill ne]
  from Suc.prems have "length (drop hashBlockSize bs) = k * hashBlockSize"
    by simp
  from Suc.IH [OF this] Suc.prems show ?case
    by (simp add: rd)
qed

lemma hashBlockSize_gt_1: "1 < hashBlockSize"
  by (simp add: hashBlockSize_def)

lemma bytes_Read_block:
  "bytes_Read hashBlockSize (replicate hashBlockSize x @ ys) = ((replicate hashBlockSize x, None), ys)"
  using hashBlockSize_pos by (simp add: bytes_Read_def)

text \<open>
  One byte past a full block: the digests of the full block and of the last byte are
  digested together.
\<close>

lemma ContentHash_block_plus_one:
  assumes "length bs = hashBlockSize + 1"
  shows "ContentHash bytes_Read bs =
         Some (hex (Sum256 (Sum256 (take hashBlockSize bs) @ Sum256 (drop hashBlockSize bs))), None)"
proof -
  from assms have ne: "bs \<noteq> []" by auto
  have d: "drop hashBlockSize bs \<noteq> []" "length (drop hashBlockSize bs) \<le> hashBlockSize"
    using assms hashBlockSize_pos by auto
  have "blocks hashBlockSize bs = take hashBlockSize bs # blocks hashBlockSize (drop hashBlockSize bs)"
    using ne hashBlockSize_pos by (subst blocks.simps) simp
  then have "blocks hashBlockSize bs = [take hashBlockSize bs, drop hashBlockSize bs]"
    by (simp add: blocks_single [OF d])
  then show ?thesis
    by (simp add: ContentHash_bytes)
qed

lemma block_digests_one_byte:
  "block_digests (OneByteReader bytes_Read) (b # bs) = Some (Inr (Sum256 [b]))"
proof -
  have rd: "OneByteReader bytes_Read hashBlockSize (b # bs) = (([b], None), bs)"
    using hashBlockSize_pos by (simp add: OneByteReader_def bytes_Read_def)
  have "hash_loop (OneByteReader bytes_Read) bs 1 None (Sum256 [b]) = Some (Inr (Sum256 [b]))"
    using hashBlockSize_gt_1 by (intro hash_loop_exit) simp
  with rd show ?thesis
    by (simp add: block_digests_def)
qed

lemma ContentHash_bytes_ab:
  "ContentHash bytes_Read [0x61, 0x62]
     = Some (''a1ff8f1856b5e24e32e3882edd4a021f48f28a8b21854b77fdef25a97601aace'', None)"
proof -
  have "blocks hashBlockSize [0x61, 0x62 :: byte] = [[0x61, 0x62]]"
    using hashBlockSize_gt_1 by (simp add: blocks_single)
  then have "ContentHash bytes_Read [0x61, 0x62] = Some (hex (Sum256 (Sum256 [0x61, 0x62])), None)"
    by (simp add: ContentHash_bytes)
  then show ?thesis
    by (simp only: Sum256_ab Sum256_Sum256_ab_hex)
qed

lemma lowerASCII_examples:
  "list_all isASCII ''FiLe''" "map lowerASCII ''FiLe'' = ''file''"
  "list_all isASCII ''FOLDER''" "map lowerASCII ''FOLDER'' = ''folder''"
  "list_all isASCII ''Deleted''" "map lowerASCII ''Deleted'' = ''deleted''"
  by code_simp+

lemma ToLower_examples:
  "ToLower ul ''FiLe'' = ''file''" "ToLower ul ''FOLDER'' = ''folder''"
  "ToLower ul ''Deleted'' = ''deleted''"
  by (simp_all only: ToLower_def lowerASCII_examples if_True)

section \<open>Reads that are performed, full blocks and files\<close>

text \<open>
  Errors of the reads that are performed. When a read that \<^verbatim>\<open>ContentHash\<close> performs
  returns an error other than end-of-stream, the call returns the empty string and that
  error. Conversely every return is either a hexadecimal digest with no error, in which
  case no performed read gave such an error, or the empty string with an error that a
  performed read gave and that is not end-of-stream.
\<close>

lemma ContentHash_read_error:
  "(reaches rd s k \<and> nth_read rd s k = (buf, Some e) \<and> e \<noteq> EOF \<longrightarrow>
      ContentHash rd s = Some ('''', Some e)) \<and>
   (ContentHash rd s = Some (h, err) \<longrightarrow>
      (case err of
         None \<Rightarrow>
           (\<exists>written. h = hex (Sum256 written)) \<and>
           \<not> (\<exists>j b x. reaches rd s j \<and> nth_read rd s j = (b, Some x) \<and> x \<noteq> EOF)
       | Some x \<Rightarrow>
           h = '''' \<and> x \<noteq> EOF \<and> (\<exists>j b. reaches rd s j \<and> nth_read rd s j = (b, Some x))))"
proof (intro conjI impI)
  assume "reaches rd s k \<and> nth_read rd s k = (buf, Some e) \<and> e \<noteq> EOF"
  with block_digests_abort [of rd s k buf e] show "ContentHash rd s = Some ('''', Some e)"
    by (simp add: ContentHash_def)
next
  assume run: "ContentHash rd s = Some (h, err)"
  show "case err of
          None \<Rightarrow>
            (\<exists>written. h = hex (Sum256 written)) \<and>
            \<not> (\<exists>j b x. reaches rd s j \<and> nth_read rd s j = (b, Some x) \<and> x \<noteq> EOF)
        | Some x \<Rightarrow>
            h = '''' \<and> x \<noteq> EOF \<and> (\<exists>j b. reaches rd s j \<and> nth_read rd s j = (b, Some x))"
  proof (cases err)
    case None
    with run obtain written where
      "block_digests rd s = Some (Inr written)" "h = hex (Sum256 written)"
      by (auto simp: ContentHash_def split: option.splits sum.splits)
    moreover from this have "\<not> (\<exists>j b x. reaches rd s j \<and> nth_read rd s j = (b, Some x) \<and> x \<noteq> EOF)"
      using block_digests_abort [of rd s] by fastforce
    ultimately show ?thesis
      using None by auto
  next
    case (Some x)
    with run have "block_digests rd s = Some (Inl x)" "h = ''''"
      by (auto simp: ContentHash_def split: option.splits sum.splits)
    with block_digests_Inl [of rd s x] Some show ?thesis
      by simp
  qed
qed

lemma ContentHash_read_error_witness:
  "reaches (TimeoutReader bytes_Read) (0, replicate hashBlockSize 0 @ [1, 2, 3]) 1 \<and>
   nth_read (TimeoutReader bytes_Read) (0, replicate hashBlockSize 0 @ [1, 2, 3]) 1
     = ([], Some ErrTimeout) \<and>
   ErrTimeout \<noteq> EOF \<and>
   ContentHash (TimeoutReader bytes_Read) (0, replicate hashBlockSize 0 @ [1, 2, 3])
     = Some ('''', Some ErrTimeout) \<and>
   (\<exists>j b. reaches (TimeoutReader bytes_Read) (0, replicate hashBlockSize 0 @ [1, 2, 3]) j \<and>
      nth_read (TimeoutReader bytes_Read) (0, replicate hashBlockSize 0 @ [1, 2, 3]) j
        = (b, Some ErrTimeout))"
proof -
  let ?s = "(0 :: nat, replicate hashBlockSize (0 :: byte) @ [1, 2, 3])"
  have h: "reaches (TimeoutReader bytes_Read) ?s 1 \<and>
           nth_read (TimeoutReader bytes_Read) ?s 1 = ([], Some ErrTimeout) \<and> ErrTimeout \<noteq> EOF"
    by (simp add: TimeoutReader_def bytes_Read_block ErrTimeout_def)
  note t = ContentHash_read_error
    [of "TimeoutReader bytes_Read" ?s 1 "[]" ErrTimeout "''''" "Some ErrTimeout"]
  from t h have run: "ContentHash (TimeoutReader bytes_Read) ?s = Some ('''', Some ErrTimeout)"
    by blast
  with t have "\<exists>j b. reaches (TimeoutReader bytes_Read) ?s j \<and>
      nth_read (TimeoutReader bytes_Read) ?s j = (b, Some ErrTimeout)"
    by simp
  with h run show ?thesis by simp
qed

text \<open>
  Streams of full blocks. When the stream delivers \<open>k\<close> full blocks and then a read of
  zero bytes with end-of-stream, \<^verbatim>\<open>resultHash\<close> receives exactly the \<open>k\<close> digests of
  those blocks, \<open>32 * k\<close> bytes, and nothing for the last read. Every byte string whose
  length is \<open>k\<close> times 4,194,304 is delivered in this way by a \<^verbatim>\<open>bytes.Reader\<close>.
\<close>

lemma ContentHash_block_multiple:
  "(reaches rd s k \<and> nth_read rd s k = ([], Some EOF) \<longrightarrow>
      block_digests rd s = Some (Inr (concat (map Sum256 (read_blocks rd s k)))) \<and>
      length (read_blocks rd s k) = k \<and>
      length (concat (read_blocks rd s k)) = k * hashBlockSize \<and>
      length (concat (map Sum256 (read_blocks rd s k))) = 32 * k \<and>
      ContentHash rd s = Some (hex (Sum256 (concat (map Sum256 (read_blocks rd s k)))), None)) \<and>
   (length bs = k * hashBlockSize \<longrightarrow>
      reaches bytes_Read bs k \<and> nth_read bytes_Read bs k = ([], Some EOF) \<and>
      concat (read_blocks bytes_Read bs k) = bs)"
proof (intro conjI impI)
  assume a: "reaches rd s k \<and> nth_read rd s k = ([], Some EOF)"
  with block_digests_full_blocks [of rd s k]
  show "block_digests rd s = Some (Inr (concat (map Sum256 (read_blocks rd s k))))"
    by simp
  with a show "ContentHash rd s = Some (hex (Sum256 (concat (map Sum256 (read_blocks rd s k)))), None)"
    by (simp add: ContentHash_def)
  from a show "length (concat (read_blocks rd s k)) = k * hashBlockSize"
    by (simp add: reaches_read_blocks)
next
  show "length (read_blocks rd s k) = k"
    by (rule length_read_blocks)
  show "length (concat (map Sum256 (read_blocks rd s k))) = 32 * k"
    by (simp add: length_concat_digests length_read_blocks)
next
  assume len: "length bs = k * hashBlockSize"
  note all = filled_full_blocks [OF bytes_Read_fills len]
  from all show "reaches bytes_Read bs k" by simp
  from all show "nth_read bytes_Read bs k = ([], Some EOF)" by simp
  from all show "concat (read_blocks bytes_Read bs k) = bs" by simp
qed

lemma ContentHash_block_multiple_witness:
  "length (replicate hashBlockSize (7 :: byte)) = 1 * hashBlockSize \<and>
   reaches bytes_Read (replicate hashBlockSize 7) 1 \<and>
   nth_read bytes_Read (replicate hashBlockSize 7) 1 = ([], Some EOF) \<and>
   concat (read_blocks bytes_Read (replicate hashBlockSize 7) 1) = replicate hashBlockSize 7 \<and>
   length (concat (map Sum256 (read_blocks bytes_Read (replicate hashBlockSize 7) 1))) = 32 \<and>
   block_digests bytes_Read (replicate hashBlockSize 7)
     = Some (Inr (concat (map Sum256 (read_blocks bytes_Read (replicate hashBlockSize 7) 1))))"
proof -
  let ?bs = "replicate hashBlockSize (7 :: byte)"
  have len: "length ?bs = 1 * hashBlockSize"
    by simp
  note t = ContentHash_block_multiple [of bytes_Read ?bs 1 ?bs]
  from t len have h: "reaches bytes_Read ?bs 1 \<and> nth_read bytes_Read ?bs 1 = ([], Some EOF)"
    and c: "concat (read_blocks bytes_Read ?bs 1) = ?bs"
    by blast+
  from t h have "length (concat (map Sum256 (read_blocks bytes_Read ?bs 1))) = 32 * 1"
    and "block_digests bytes_Read ?bs
           = Some (Inr (concat (map Sum256 (read_blocks bytes_Read ?bs 1))))"
    by blast+
  with len h c show ?thesis by simp
qed

text \<open>
  Delegation. When \<^verbatim>\<open>os.Open\<close> succeeds, \<^verbatim>\<open>FileContentHash\<close> returns what \<^verbatim>\<open>ContentHash\<close>
  returns on the opened file; for a regular file whose reads fill the buffer that is
  the content hash of the bytes in the file. When it fails, the result is the empty
  string and the error of \<^verbatim>\<open>os.Open\<close>, whatever reading the file would do. With the
  errors that package \<^verbatim>\<open>os\<close> gives, a returned error is an \<^verbatim>\<open>open\<close> error on the file
  name when opening failed and a \<^verbatim>\<open>read\<close> error when reading failed.
\<close>

lemma FileContentHash_delegates:
  "(\<forall>f. os_Open name = Inr f \<longrightarrow> FileContentHash os_Open rd name = ContentHash rd f) \<and>
   (\<forall>e. os_Open name = Inl e \<longrightarrow>
      (\<forall>rd'. FileContentHash os_Open rd' name = Some ('''', Some e))) \<and>
   (open_fails_with_open os_Open \<and> read_fails_with_read rd \<longrightarrow>
      (\<forall>h e. FileContentHash os_Open rd name = Some (h, Some e) \<longrightarrow>
         (case os_Open name of
            Inl _ \<Rightarrow> \<exists>msg. e = PathError ''open'' name msg
          | Inr _ \<Rightarrow> \<exists>p msg. e = PathError ''read'' p msg))) \<and>
   (\<forall>bs most. fs name = Inr (RegularFile bs most) \<and> hashBlockSize \<le> most \<longrightarrow>
      FileContentHash fs File_Read name = ContentHash bytes_Read bs)"
proof (intro conjI allI impI)
  fix f assume "os_Open name = Inr f"
  then show "FileContentHash os_Open rd name = ContentHash rd f"
    by (simp add: FileContentHash_def)
next
  fix e rd' assume "os_Open name = Inl e"
  then show "FileContentHash os_Open rd' name = Some ('''', Some e)"
    by (simp add: FileContentHash_def)
next
  fix h e
  assume os: "open_fails_with_open os_Open \<and> read_fails_with_read rd"
    and run: "FileContentHash os_Open rd name = Some (h, Some e)"
  show "case os_Open name of
          Inl _ \<Rightarrow> \<exists>msg. e = PathError ''open'' name msg
        | Inr _ \<Rightarrow> \<exists>p msg. e = PathError ''read'' p msg"
  proof (cases "os_Open name")
    case (Inl x)
    with run have "x = e" by (simp add: FileContentHash_def)
    with Inl os show ?thesis
      by (auto simp: open_fails_with_open_def)
  next
    case (Inr f)
    with run have "ContentHash rd f = Some (h, Some e)"
      by (simp add: FileContentHash_def)
    then have "block_digests rd f = Some (Inl e)"
      by (auto simp: ContentHash_def split: option.splits sum.splits)
    from block_digests_Inl [OF this] obtain j b where
      "e \<noteq> EOF" "nth_read rd f j = (b, Some e)"
      by blast
    moreover have "\<exists>n s' s''. rd n s' = ((b, Some e), s'')" if "nth_read rd s j = (b, Some e)" for s
      using that by (induction j arbitrary: s) (auto simp: fst_def split: prod.splits)
    ultimately obtain n s' s'' where "rd n s' = ((b, Some e), s'')" "e \<noteq> EOF"
      by blast
    with os have "\<exists>p msg. e = PathError ''read'' p msg"
      unfolding read_fails_with_read_def by blast
    with Inr show ?thesis by simp
  qed
next
  fix bs most assume "fs name = Inr (RegularFile bs most) \<and> hashBlockSize \<le> most"
  then show "FileContentHash fs File_Read name = ContentHash bytes_Read bs"
    by (simp add: FileContentHash_def ContentHash_RegularFile)
qed

lemma FileContentHash_delegates_witness:
  "fs_Open ''/data/ab.bin'' = Inr (RegularFile [0x61, 0x62] hashBlockSize) \<and>
   FileContentHash fs_Open File_Read ''/data/ab.bin'' = ContentHash File_Read (RegularFile [0x61, 0x62] hashBlockSize) \<and>
   FileContentHash fs_Open File_Read ''/data/ab.bin'' = ContentHash bytes_Read [0x61, 0x62] \<and>
   fs_Open ''/none'' = Inl (PathError ''open'' ''/none'' ''no such file or directory'') \<and>
   FileContentHash fs_Open File_Read ''/none''
     = Some ('''', Some (PathError ''open'' ''/none'' ''no such file or directory'')) \<and>
   open_fails_with_open fs_Open \<and> read_fails_with_read File_Read \<and>
   FileContentHash fs_Open File_Read ''/data''
     = Some ('''', Some (PathError ''read'' ''/data'' ''is a directory''))"
proof -
  have o1: "fs_Open ''/data/ab.bin'' = Inr (RegularFile [0x61, 0x62] hashBlockSize)"
    and o2: "fs_Open ''/none'' = Inl (PathError ''open'' ''/none'' ''no such file or directory'')"
    and o3: "fs_Open ''/data'' = Inr (Directory ''/data'')"
    by (simp_all add: fs_Open_def)
  have c: "open_fails_with_open fs_Open" "read_fails_with_read File_Read"
    by (auto simp: open_fails_with_open_def read_fails_with_read_def fs_Open_def File_Read_def
        split: if_splits os_File.splits)
  have d: "FileContentHash fs_Open File_Read ''/data''
             = Some ('''', Some (PathError ''read'' ''/data'' ''is a directory''))"
    by (simp add: FileContentHash_def o3 ContentHash_def block_digests_def File_Read_def)
  note ab = FileContentHash_delegates [of fs_Open "''/data/ab.bin''" File_Read fs_Open]
  note none = FileContentHash_delegates [of fs_Open "''/none''" File_Read fs_Open]
  from ab o1
  have 1: "FileContentHash fs_Open File_Read ''/data/ab.bin''
             = ContentHash File_Read (RegularFile [0x61, 0x62] hashBlockSize)"
    and 2: "FileContentHash fs_Open File_Read ''/data/ab.bin'' = ContentHash bytes_Read [0x61, 0x62]"
    by blast+
  from none o2
  have 3: "FileContentHash fs_Open File_Read ''/none''
             = Some ('''', Some (PathError ''open'' ''/none'' ''no such file or directory''))"
    by blast
  from o1 o2 1 2 3 c d show ?thesis
    by (intro conjI)
qed

section \<open>Properties of the code\<close>

text \<open>
  C1. The claim is that the result does not depend on how the reader cuts the content
  into reads. The loop stops at the first read that does not fill the buffer, so the
  code does not do this: when a non-empty content is delivered one byte per read, the
  result is the content hash of its first byte alone, whatever follows. For the two
  bytes \<^verbatim>\<open>ab\<close> the result is \<^verbatim>\<open>bf5d3aff...\<close> with one-byte reads and \<^verbatim>\<open>a1ff8f18...\<close>
  with one read of both bytes.
\<close>

theorem ContentHash_one_byte_reads:
  "ContentHash (OneByteReader bytes_Read) (b # bs) = ContentHash bytes_Read [b] \<and>
   ContentHash (OneByteReader bytes_Read) [0x61, 0x62]
     = Some (''bf5d3affb73efd2ec6c36ad3112dd933efed63c4e1cbffcfa88e2759c144f2d8'', None) \<and>
   ContentHash bytes_Read [0x61, 0x62]
     = Some (''a1ff8f1856b5e24e32e3882edd4a021f48f28a8b21854b77fdef25a97601aace'', None) \<and>
   ContentHash (OneByteReader bytes_Read) [0x61, 0x62] \<noteq> ContentHash bytes_Read [0x61, 0x62]"
proof -
  have one: "ContentHash (OneByteReader bytes_Read) (x # xs) = Some (hex (Sum256 (Sum256 [x])), None)"
    for x xs
  proof -
    have rd: "OneByteReader bytes_Read hashBlockSize (x # xs) = (([x], None), xs)"
      using hashBlockSize_pos by (simp add: OneByteReader_def bytes_Read_def)
    have "hash_loop (OneByteReader bytes_Read) xs 1 None (Sum256 [x]) = Some (Inr (Sum256 [x]))"
      using hashBlockSize_gt_1 by (intro hash_loop_exit) simp
    with rd have "block_digests (OneByteReader bytes_Read) (x # xs) = Some (Inr (Sum256 [x]))"
      by (simp add: block_digests_def)
    then show ?thesis
      by (simp add: ContentHash_def)
  qed
  have "blocks hashBlockSize [x] = [[x]]" "blocks hashBlockSize [x, y] = [[x, y]]" for x y :: byte
    using hashBlockSize_gt_1 by (simp_all add: blocks_single)
  then have whole: "ContentHash bytes_Read [x] = Some (hex (Sum256 (Sum256 [x])), None)"
    "ContentHash bytes_Read [x, y] = Some (hex (Sum256 (Sum256 [x, y])), None)" for x y
    by (simp_all add: ContentHash_bytes)
  have "ContentHash (OneByteReader bytes_Read) (b # bs) = ContentHash bytes_Read [b]"
    by (simp only: one whole)
  moreover have "ContentHash (OneByteReader bytes_Read) [0x61, 0x62]
      = Some (''bf5d3affb73efd2ec6c36ad3112dd933efed63c4e1cbffcfa88e2759c144f2d8'', None)"
    by (simp only: one Sum256_a Sum256_Sum256_a_hex)
  moreover have "ContentHash bytes_Read [0x61, 0x62]
      = Some (''a1ff8f1856b5e24e32e3882edd4a021f48f28a8b21854b77fdef25a97601aace'', None)"
    by (simp only: whole Sum256_ab Sum256_Sum256_ab_hex)
  ultimately show ?thesis by simp
qed

text \<open>
  C2. A stream with no bytes, whose first read gives zero bytes and end-of-stream (or
  zero bytes and no error), makes \<^verbatim>\<open>ContentHash\<close> return the hexadecimal form of the
  32-byte digest of zero bytes, with no error. That string is \<^verbatim>\<open>e3b0c442...\<close>, the SHA-256 digest of the empty string.
\<close>

theorem ContentHash_empty_stream:
  "fst (rd hashBlockSize s) = ([], err) \<and> (err = Some EOF \<or> err = None) \<Longrightarrow>
     ContentHash rd s = Some (hex (Sum256 []), None) \<and> length (Sum256 []) = 32 \<and>
     hex (Sum256 []) = ''e3b0c44298fc1c149afbf4c8996fb92427ae41e4649b934ca495991b7852b855''"
proof -
  assume a: "fst (rd hashBlockSize s) = ([], err) \<and> (err = Some EOF \<or> err = None)"
  then obtain s' where "rd hashBlockSize s = (([], err), s')"
    by (cases "rd hashBlockSize s") auto
  moreover have "hash_loop rd s' 0 err [] = Some (Inr [])"
    using hashBlockSize_pos by (intro hash_loop_exit) simp
  ultimately show ?thesis
    using a
    by (auto simp: ContentHash_def block_digests_def length_Sum256 Sum256_empty_hex)
qed

theorem ContentHash_empty_stream_witness:
  "fst (bytes_Read hashBlockSize []) = ([], Some EOF) \<and>
   ContentHash bytes_Read []
     = Some (''e3b0c44298fc1c149afbf4c8996fb92427ae41e4649b934ca495991b7852b855'', None)"
proof -
  have h: "fst (bytes_Read hashBlockSize []) = ([], Some EOF)"
    by (simp add: bytes_Read_def)
  from ContentHash_empty_stream [of bytes_Read "[]" "Some EOF"] h show ?thesis by simp
qed

text \<open>
  C3. The claim is that an error other than end-of-stream at any point of the reader's
  read sequence makes \<^verbatim>\<open>ContentHash\<close> return the empty string and that error, never a
  hash. The code only sees the errors of the reads it performs, and it stops reading at
  the first read that does not fill the buffer. \<^verbatim>\<open>iotest.TimeoutReader\<close> over the two
  bytes \<^verbatim>\<open>ab\<close> gives both bytes at its first read and \<^verbatim>\<open>ErrTimeout\<close> at its second; the
  code returns the content hash of \<^verbatim>\<open>ab\<close> and no error.
\<close>

theorem ContentHash_error_after_short_read:
  "nth_read (TimeoutReader bytes_Read) (0, [0x61, 0x62]) 0 = ([0x61, 0x62], None) \<and>
   nth_read (TimeoutReader bytes_Read) (0, [0x61, 0x62]) 1 = ([], Some ErrTimeout) \<and>
   ErrTimeout \<noteq> EOF \<and>
   ContentHash (TimeoutReader bytes_Read) (0, [0x61, 0x62])
     = Some (''a1ff8f1856b5e24e32e3882edd4a021f48f28a8b21854b77fdef25a97601aace'', None)"
proof -
  have rd: "TimeoutReader bytes_Read hashBlockSize (0, [0x61, 0x62]) = (([0x61, 0x62], None), (1, []))"
    using hashBlockSize_gt_1 by (simp add: TimeoutReader_def bytes_Read_def)
  have two: "hashBlockSize \<noteq> Suc (Suc 0)" "Suc (Suc 0) \<noteq> hashBlockSize"
    by (simp_all add: hashBlockSize_def)
  have "block_digests (TimeoutReader bytes_Read) (0, [0x61, 0x62])
          = Some (Inr (Sum256 [0x61, 0x62]))"
    by (simp add: block_digests_def rd hash_loop_exit two)
  then have "ContentHash (TimeoutReader bytes_Read) (0, [0x61, 0x62])
      = Some (''a1ff8f1856b5e24e32e3882edd4a021f48f28a8b21854b77fdef25a97601aace'', None)"
    by (simp only: ContentHash_def option.case sum.case Sum256_ab Sum256_Sum256_ab_hex)
  moreover have "nth_read (TimeoutReader bytes_Read) (0, [0x61, 0x62]) 0 = ([0x61, 0x62], None)"
    by (simp add: rd)
  moreover have "nth_read (TimeoutReader bytes_Read) (0, [0x61, 0x62]) 1 = ([], Some ErrTimeout)"
    by (simp add: rd) (simp add: TimeoutReader_def)
  moreover have "ErrTimeout \<noteq> EOF"
    by (simp add: ErrTimeout_def)
  ultimately show ?thesis by simp
qed

text \<open>
  C4. For a byte string of exactly 4,194,304 bytes, \<^verbatim>\<open>resultHash\<close> receives one block
  digest of 32 bytes, the digest of the whole string, and the result is the hexadecimal
  form of the digest of that digest.
\<close>

theorem ContentHash_one_block:
  "length bs = hashBlockSize \<Longrightarrow>
     block_digests bytes_Read bs = Some (Inr (Sum256 bs)) \<and>
     length (Sum256 bs) = 32 \<and>
     ContentHash bytes_Read bs = Some (hex (Sum256 (Sum256 bs)), None)"
proof -
  assume len: "length bs = hashBlockSize"
  with hashBlockSize_pos have "bs \<noteq> []" by auto
  with len have "blocks hashBlockSize bs = [bs]"
    by (simp add: blocks_single)
  then show ?thesis
    by (simp add: ContentHash_bytes block_digests_bytes length_Sum256)
qed

theorem ContentHash_one_block_witness:
  "length (replicate hashBlockSize (0 :: byte)) = hashBlockSize \<and>
   ContentHash bytes_Read (replicate hashBlockSize 0)
     = Some (hex (Sum256 (Sum256 (replicate hashBlockSize 0))), None)"
proof -
  have h: "length (replicate hashBlockSize (0 :: byte)) = hashBlockSize"
    by simp
  from ContentHash_one_block [OF h] h show ?thesis by simp
qed

text \<open>
  C6. The claim is that for every stream whose length is \<open>k\<close> times 4,194,304 exactly
  \<open>k\<close> block digests are digested. That holds when the stream arrives in full blocks,
  as shown above, and not when it arrives in shorter reads, since the code stops at
  the first read that does not fill the buffer: of 8,388,608 zero bytes delivered one
  byte per read, \<^verbatim>\<open>resultHash\<close> receives the one digest of the first byte, 32 bytes,
  where a \<^verbatim>\<open>bytes.Reader\<close> over the same bytes makes it receive the two digests of the
  two blocks, 64 bytes.
\<close>

theorem ContentHash_short_reads_one_digest:
  "length (replicate (2 * hashBlockSize) (0 :: byte)) = 2 * hashBlockSize \<and>
   block_digests (OneByteReader bytes_Read) (replicate (2 * hashBlockSize) 0)
     = Some (Inr (Sum256 [0])) \<and>
   length (Sum256 [0 :: byte]) = 32 \<and>
   block_digests bytes_Read (replicate (2 * hashBlockSize) 0)
     = Some (Inr (Sum256 (replicate hashBlockSize 0) @ Sum256 (replicate hashBlockSize 0))) \<and>
   length (Sum256 (replicate hashBlockSize (0 :: byte)) @ Sum256 (replicate hashBlockSize 0)) = 64 \<and>
   block_digests (OneByteReader bytes_Read) (b # bs) = Some (Inr (Sum256 [b]))"
proof -
  let ?zs = "replicate (2 * hashBlockSize) (0 :: byte)"
  have "?zs = 0 # replicate (2 * hashBlockSize - 1) 0"
    using hashBlockSize_pos by (cases "2 * hashBlockSize") simp_all
  then have short: "block_digests (OneByteReader bytes_Read) ?zs = Some (Inr (Sum256 [0]))"
    by (simp only: block_digests_one_byte)
  have ne: "?zs \<noteq> []"
    using hashBlockSize_pos by simp
  have "blocks hashBlockSize ?zs = take hashBlockSize ?zs # blocks hashBlockSize (drop hashBlockSize ?zs)"
    using ne hashBlockSize_pos by (subst blocks.simps) simp
  moreover have "take hashBlockSize ?zs = replicate hashBlockSize 0"
    "drop hashBlockSize ?zs = replicate hashBlockSize 0"
    by (simp_all add: min_def)
  moreover have "blocks hashBlockSize (replicate hashBlockSize (0 :: byte)) = [replicate hashBlockSize 0]"
    using hashBlockSize_pos by (intro blocks_single) simp_all
  ultimately have "blocks hashBlockSize ?zs = [replicate hashBlockSize 0, replicate hashBlockSize 0]"
    by simp
  then have full: "block_digests bytes_Read ?zs
      = Some (Inr (Sum256 (replicate hashBlockSize 0) @ Sum256 (replicate hashBlockSize 0)))"
    by (simp add: block_digests_bytes)
  from short full show ?thesis
    by (simp add: length_Sum256 block_digests_one_byte)
qed

text \<open>
  C7. The claim is that for a regular file \<^verbatim>\<open>FileContentHash\<close> returns what
  \<^verbatim>\<open>ContentHash\<close> returns on the contents of the file. \<^verbatim>\<open>FileContentHash\<close> hands the
  opened file to \<^verbatim>\<open>ContentHash\<close>, which stops at the first read that does not fill the
  buffer. For the file \<^verbatim>\<open>/proc/ab\<close>, whose two bytes \<^verbatim>\<open>ab\<close> come one per read, the result
  is \<^verbatim>\<open>bf5d3aff...\<close>, the content hash of \<^verbatim>\<open>a\<close>, and not \<^verbatim>\<open>a1ff8f18...\<close>, the content
  hash of the two bytes in the file.
\<close>

theorem FileContentHash_short_file_reads:
  "fs_Open ''/proc/ab'' = Inr (RegularFile [0x61, 0x62] 1) \<and>
   FileContentHash fs_Open File_Read ''/proc/ab''
     = Some (''bf5d3affb73efd2ec6c36ad3112dd933efed63c4e1cbffcfa88e2759c144f2d8'', None) \<and>
   ContentHash bytes_Read [0x61, 0x62]
     = Some (''a1ff8f1856b5e24e32e3882edd4a021f48f28a8b21854b77fdef25a97601aace'', None) \<and>
   FileContentHash fs_Open File_Read ''/proc/ab'' \<noteq> ContentHash bytes_Read [0x61, 0x62]"
proof -
  have op: "fs_Open ''/proc/ab'' = Inr (RegularFile [0x61, 0x62] 1)"
    by (simp add: fs_Open_def)
  have rd: "File_Read hashBlockSize (RegularFile [0x61, 0x62] 1)
              = (([0x61], None), RegularFile [0x62] 1)"
    using hashBlockSize_gt_1 by (simp add: File_Read_def min_absorb2)
  have "hash_loop File_Read (RegularFile [0x62] 1) 1 None (Sum256 [0x61]) = Some (Inr (Sum256 [0x61]))"
    using hashBlockSize_gt_1 by (intro hash_loop_exit) simp
  with rd have "block_digests File_Read (RegularFile [0x61, 0x62] 1) = Some (Inr (Sum256 [0x61]))"
    by (simp add: block_digests_def)
  then have "ContentHash File_Read (RegularFile [0x61, 0x62] 1)
      = Some (''bf5d3affb73efd2ec6c36ad3112dd933efed63c4e1cbffcfa88e2759c144f2d8'', None)"
    by (simp only: ContentHash_def option.case sum.case Sum256_a Sum256_Sum256_a_hex)
  with op have fch: "FileContentHash fs_Open File_Read ''/proc/ab''
      = Some (''bf5d3affb73efd2ec6c36ad3112dd933efed63c4e1cbffcfa88e2759c144f2d8'', None)"
    by (simp add: FileContentHash_def)
  from op fch ContentHash_bytes_ab show ?thesis by simp
qed

text \<open>
  C8. Whenever \<^verbatim>\<open>ContentHash\<close> returns without an error, its string is the hexadecimal
  form of a 32-byte digest: 64 characters, each a digit or a lower-case letter from
  \<^verbatim>\<open>a\<close> to \<^verbatim>\<open>f\<close>.
\<close>

theorem ContentHash_hex_64:
  "ContentHash rd s = Some (h, None) \<Longrightarrow>
     length h = 64 \<and> set h \<subseteq> set ''0123456789abcdef'' \<and> (\<exists>d. length d = 32 \<and> h = hex d)"
proof -
  assume "ContentHash rd s = Some (h, None)"
  then obtain written where h: "h = hex (Sum256 written)"
    by (auto simp: ContentHash_def split: option.splits sum.splits)
  have "length h = 64"
    by (simp add: h length_hex length_Sum256)
  moreover have "set h \<subseteq> set ''0123456789abcdef''"
    unfolding h by (rule set_hex)
  moreover have "\<exists>d. length d = 32 \<and> h = hex d"
    using h length_Sum256 by blast
  ultimately show ?thesis by simp
qed

theorem ContentHash_hex_64_witness:
  "ContentHash bytes_Read [0x61] = Some (hex (Sum256 (Sum256 [0x61])), None) \<and>
   length (hex (Sum256 (Sum256 [0x61]))) = 64 \<and>
   set (hex (Sum256 (Sum256 [0x61]))) \<subseteq> set ''0123456789abcdef''"
proof -
  have "blocks hashBlockSize [0x61 :: byte] = [[0x61]]"
    using hashBlockSize_gt_1 by (simp add: blocks_single)
  then have h: "ContentHash bytes_Read [0x61] = Some (hex (Sum256 (Sum256 [0x61])), None)"
    by (simp add: ContentHash_bytes)
  from ContentHash_hex_64 [OF h] h show ?thesis by simp
qed

text \<open>
  C9. \<^verbatim>\<open>GetMode\<close> after \<^verbatim>\<open>SetMode\<close>: the update mode comes back with its revision, the
  modes add and overwrite come back with an empty revision, and a \<^verbatim>\<open>Mode\<close> that is
  \<^verbatim>\<open>nil\<close> or of another type gives two empty strings.
\<close>

theorem GetMode_SetMode:
  "GetMode (SetMode i WriteModeUpdate revision) = (WriteModeUpdate, revision) \<and>
   GetMode (SetMode i WriteModeAdd revision) = (WriteModeAdd, '''') \<and>
   GetMode (SetMode i WriteModeOverwrite revision) = (WriteModeOverwrite, '''') \<and>
   GetMode (i\<lparr>Mode := NilMode\<rparr>) = ('''', '''') \<and>
   GetMode (i\<lparr>Mode := OtherValue v\<rparr>) = ('''', '''')"
  by (simp add: GetMode_def SetMode_def newWriteModeUpdate_def WriteModeUpdate_def
      WriteModeAdd_def WriteModeOverwrite_def)

text \<open>
  C10. Each predicate compares the lower-cased tag with its own constant, so mixed-case
  tags are recognised, and at most one of the three holds.
\<close>

theorem Metadata_kind_exclusive:
  "IsFile ul m = (ToLower ul (Tag m) = ''file'') \<and>
   IsFolder ul m = (ToLower ul (Tag m) = ''folder'') \<and>
   IsDeleted ul m = (ToLower ul (Tag m) = ''deleted'') \<and>
   length (filter id [IsFile ul m, IsFolder ul m, IsDeleted ul m]) \<le> 1 \<and>
   IsFile ul (m\<lparr>Tag := ''FiLe''\<rparr>) \<and>
   IsFolder ul (m\<lparr>Tag := ''FOLDER''\<rparr>) \<and>
   IsDeleted ul (m\<lparr>Tag := ''Deleted''\<rparr>)"
  by (auto simp: IsFile_def IsFolder_def IsDeleted_def MetadataTypeFile_def
      MetadataTypeFolder_def MetadataTypeDeleted_def ToLower_examples)

end
